theory Spec2Isabelle
  imports Main "HOL-Library.Multiset" "HOL-Library.Word"
begin

section \<open>The graph type\<close>

text \<open>
  \<^verbatim>\<open>DblingGraph\<close> inherits from \<^verbatim>\<open>graph_tool.Graph\<close>: the vertices are the indices
  \<open>0 ..< num_vertices\<close>, the vertex property maps are arrays over these indices, the
  edges are pairs (source, target) of vertex indices, and there is one graph property,
  \<^verbatim>\<open>has_encrypted_files\<close>. The record below keeps the property maps as one list of
  per-vertex values, whose position is the vertex index. The type of the per-vertex
  value is a parameter: the decomposition code of \<^verbatim>\<open>profiler/profile.py\<close> never reads
  a vertex property.
\<close>

record 'a graph =
  vp :: "'a list"
  edges :: "(nat \<times> nat) list"
  gp_has_encrypted_files :: bool

definition num_vertices :: "'a graph \<Rightarrow> nat" where
  "num_vertices g = length (vp g)"

text \<open>\<^verbatim>\<open>DblingGraph.copy\<close>: \<^verbatim>\<open>DblingGraph(g=self)\<close>, an independent graph with the same
  vertices, edges and property values.\<close>

definition copy :: "'a graph \<Rightarrow> 'a graph" where
  "copy g = g"

text \<open>
  \<^verbatim>\<open>Graph.remove_vertex(vertices)\<close> with the default \<^verbatim>\<open>fast=False\<close>: the listed
  vertices and every edge that touches one of them are removed, the remaining vertices
  keep their relative order and are renumbered \<open>0, 1, \<dots>\<close>, and their property
  values move with them.
\<close>

definition new_index :: "nat list \<Rightarrow> nat \<Rightarrow> nat" where
  "new_index rm_list i = length (filter (\<lambda>j. j \<notin> set rm_list) [0..<i])"

definition remove_vertex :: "'a graph \<Rightarrow> nat list \<Rightarrow> 'a graph" where
  "remove_vertex g rm_list =
     g\<lparr>vp := map (\<lambda>i. vp g ! i) (filter (\<lambda>i. i \<notin> set rm_list) [0..<num_vertices g]),
       edges := map (\<lambda>(s, t). (new_index rm_list s, new_index rm_list t))
                  (filter (\<lambda>(s, t). s \<notin> set rm_list \<and> t \<notin> set rm_list) (edges g))\<rparr>"

section \<open>Shortest distances from a source (graph\_tool)\<close>

text \<open>
  \<^verbatim>\<open>shortest_distance(g, source, directed=False)\<close> without weights: a breadth-first
  search over the edges read in both directions. The distance map has value type
  \<^verbatim>\<open>int32_t\<close>; it starts at the largest \<^verbatim>\<open>int32_t\<close> everywhere, the source gets 0,
  and each vertex discovered from \<open>u\<close> gets the distance of \<open>u\<close> plus one.
\<close>

definition MAX_DIST :: int where
  "MAX_DIST = 2 ^ 31 - 1"

definition neighbours :: "(nat \<times> nat) list \<Rightarrow> nat \<Rightarrow> nat list" where
  "neighbours el u =
     concat (map (\<lambda>(s, t). (if s = u then [t] else []) @ (if t = u \<and> s \<noteq> u then [s] else [])) el)"

definition visit ::
  "nat \<Rightarrow> nat \<Rightarrow> nat list \<times> bool list \<times> 32 word list \<Rightarrow> nat list \<times> bool list \<times> 32 word list" where
  "visit u v st =
     (case st of (queue, seen, dist) \<Rightarrow>
        if v < length seen \<and> \<not> seen ! v
        then (queue @ [v], seen[v := True], dist[v := dist ! u + 1])
        else st)"

definition unseen :: "bool list \<Rightarrow> nat" where
  "unseen seen = length (filter (\<lambda>b. \<not> b) seen)"

lemma unseen_update:
  "v < length seen \<Longrightarrow> \<not> seen ! v \<Longrightarrow> Suc (unseen (seen[v := True])) = unseen seen"
proof (induction seen arbitrary: v)
  case Nil
  then show ?case by simp
next
  case (Cons b bs)
  show ?case
  proof (cases v)
    case 0
    with Cons.prems show ?thesis by (simp add: unseen_def)
  next
    case (Suc w)
    with Cons.prems have "Suc (unseen (bs[w := True])) = unseen bs"
      using Cons.IH [of w] by simp
    with Suc show ?thesis by (simp add: unseen_def)
  qed
qed

lemma visit_measure:
  "visit u v (queue, seen, dist) = (queue', seen', dist') \<Longrightarrow>
   2 * unseen seen' + length queue' \<le> 2 * unseen seen + length queue"
  using unseen_update [of v seen]
  by (auto simp: visit_def split: if_splits)

lemma fold_visit_measure:
  "fold (visit u) ns (queue, seen, dist) = (queue', seen', dist') \<Longrightarrow>
   2 * unseen seen' + length queue' \<le> 2 * unseen seen + length queue"
proof (induction ns arbitrary: queue seen dist)
  case Nil
  then show ?case by simp
next
  case (Cons n ns)
  obtain q1 s1 d1 where v: "visit u n (queue, seen, dist) = (q1, s1, d1)"
    by (cases "visit u n (queue, seen, dist)") auto
  with Cons.prems have "fold (visit u) ns (q1, s1, d1) = (queue', seen', dist')" by simp
  then have "2 * unseen seen' + length queue' \<le> 2 * unseen s1 + length q1"
    by (rule Cons.IH)
  with visit_measure [OF v] show ?case by linarith
qed

function bfs_loop ::
  "(nat \<times> nat) list \<Rightarrow> nat list \<Rightarrow> bool list \<Rightarrow> 32 word list \<Rightarrow> 32 word list" where
  "bfs_loop el [] seen dist = dist"
| "bfs_loop el (u # queue) seen dist =
     (case fold (visit u) (neighbours el u) (queue, seen, dist) of
        (queue', seen', dist') \<Rightarrow> bfs_loop el queue' seen' dist')"
  by pat_completeness auto
termination
proof (relation "measure (\<lambda>(el, queue, seen, dist). 2 * unseen seen + length queue)", goal_cases)
  case 1
  show ?case by simp
next
  case (2 el u queue seen dist queue' y seen' dist')
  then have "fold (visit u) (neighbours el u) (queue, seen, dist) = (queue', seen', dist')"
    by simp
  from fold_visit_measure [OF this] show ?case by simp
qed

definition shortest_distance :: "'a graph \<Rightarrow> nat \<Rightarrow> 32 word list" where
  "shortest_distance g source =
     bfs_loop (edges g) [source]
       ((replicate (num_vertices g) False)[source := True])
       ((replicate (num_vertices g) (word_of_int MAX_DIST))[source := 0])"


section \<open>Candidate extraction (profiler/profile.py)\<close>

datatype exn = AssertionError | OSError | KeyError | ValueError

text \<open>
  \<^verbatim>\<open>get_subtree_vertices(g)\<close>: the vertices whose distance from \<^verbatim>\<open>g.vertex(0)\<close> is
  below \<^verbatim>\<open>MAX_DIST\<close>; \<^verbatim>\<open>g.vertex(0)\<close> raises \<^verbatim>\<open>ValueError\<close> in a graph without
  vertices. The distances are read as signed 32-bit numbers.
\<close>

definition get_subtree_vertices :: "'a graph \<Rightarrow> exn + nat list" where
  "get_subtree_vertices g =
     (if num_vertices g = 0 then Inl ValueError
      else let dist = shortest_distance g 0
           in Inr (map fst (filter (\<lambda>(i, v). sint v < MAX_DIST) (enumerate 0 dist))))"

text \<open>
  One pass through the body of the \<^verbatim>\<open>while\<close> loop, after \<^verbatim>\<open>sg_vertices\<close> has been
  computed on the copy: the vertices of the original graph that are in the list are
  removed from it, the vertices of the copy that are not in the list are removed from
  the copy. A vertex of one graph is in a list of vertices of the other when their
  indices are equal. The result is the pair (original graph, copy).
\<close>

definition extract_iteration :: "'a graph \<Rightarrow> 'a graph \<Rightarrow> nat list \<Rightarrow> 'a graph \<times> 'a graph" where
  "extract_iteration orig_graph sub_graph sg_vertices =
     (let rm_list = filter (\<lambda>v. v \<in> set sg_vertices) [0..<num_vertices orig_graph];
          orig_graph' = remove_vertex orig_graph rm_list;
          rm_list' = filter (\<lambda>v. v \<notin> set sg_vertices) [0..<num_vertices sub_graph];
          sub_graph' = remove_vertex sub_graph rm_list'
      in (orig_graph', sub_graph'))"

text \<open>
  The \<^verbatim>\<open>while\<close> loop of \<^verbatim>\<open>extract_candidates\<close>. Nothing in its shape bounds the number
  of passes, so the loop is a partial function: \<open>None\<close> is a loop that never ends,
  \<open>Some (Inl e)\<close> an exception, \<open>Some (Inr (candidates, orig_graph))\<close> the returned
  list together with the caller's graph as the loop left it.
\<close>

partial_function (option) extract_loop ::
  "'a graph \<Rightarrow> 'a graph list \<Rightarrow> (exn + 'a graph list \<times> 'a graph) option" where
  "extract_loop orig_graph candidates =
     (if num_vertices orig_graph > 0
      then (case get_subtree_vertices (copy orig_graph) of
              Inl e \<Rightarrow> Some (Inl e)
            | Inr sg_vertices \<Rightarrow>
                (case extract_iteration orig_graph (copy orig_graph) sg_vertices of
                   (orig_graph', sub_graph') \<Rightarrow>
                     extract_loop orig_graph'
                       (if num_vertices sub_graph' \<noteq> 0 then candidates @ [sub_graph']
                        else candidates)))
      else Some (Inr (candidates, orig_graph)))"

definition extract_candidates :: "'a graph \<Rightarrow> (exn + 'a graph list \<times> 'a graph) option" where
  "extract_candidates orig_graph = extract_loop orig_graph []"

declare extract_loop.simps [code]

text \<open>A graph of two separate edges, with its vertices named, for running the loop.\<close>

definition two_pairs :: "string graph" where
  "two_pairs = \<lparr>vp = [''a'', ''b'', ''c'', ''d''], edges = [(0, 2), (3, 1)],
     gp_has_encrypted_files = False\<rparr>"

subsection \<open>The seed is always collected\<close>

lemma visit_keeps_seed:
  assumes "visit u v (queue, seen, dist) = (queue', seen', dist')"
    and "length dist = length seen" and "0 < length seen" and "seen ! 0" and "dist ! 0 = 0"
  shows "length dist' = length seen' \<and> length seen' = length seen \<and> seen' ! 0 \<and> dist' ! 0 = 0"
proof (cases "v < length seen \<and> \<not> seen ! v")
  case True
  have "v \<noteq> 0"
  proof
    assume "v = 0"
    with True assms(4) show False by simp
  qed
  with True assms show ?thesis by (auto simp: visit_def)
next
  case False
  with assms show ?thesis by (auto simp: visit_def)
qed

lemma fold_visit_keeps_seed:
  "fold (visit u) ns (queue, seen, dist) = (queue', seen', dist') \<Longrightarrow>
   length dist = length seen \<Longrightarrow> 0 < length seen \<Longrightarrow> seen ! 0 \<Longrightarrow> dist ! 0 = 0 \<Longrightarrow>
   length dist' = length seen' \<and> length seen' = length seen \<and> seen' ! 0 \<and> dist' ! 0 = 0"
proof (induction ns arbitrary: queue seen dist)
  case Nil
  then show ?case by simp
next
  case (Cons n ns)
  obtain q1 s1 d1 where v: "visit u n (queue, seen, dist) = (q1, s1, d1)"
    by (cases "visit u n (queue, seen, dist)") auto
  from visit_keeps_seed [OF v Cons.prems(2-5)]
  have k: "length d1 = length s1" "length s1 = length seen" "s1 ! 0" "d1 ! 0 = 0" by simp_all
  from v Cons.prems(1) have "fold (visit u) ns (q1, s1, d1) = (queue', seen', dist')" by simp
  from Cons.IH [OF this k(1) _ k(3,4)] k(2) Cons.prems(3) show ?case by simp
qed

lemma bfs_loop_keeps_seed:
  "length dist = length seen \<Longrightarrow> 0 < length seen \<Longrightarrow> seen ! 0 \<Longrightarrow> dist ! 0 = 0 \<Longrightarrow>
   length (bfs_loop el queue seen dist) = length seen \<and> bfs_loop el queue seen dist ! 0 = 0"
proof (induction el queue seen dist rule: bfs_loop.induct)
  case (1 el seen dist)
  then show ?case by simp
next
  case (2 el u queue seen dist)
  obtain q1 s1 d1 where f: "fold (visit u) (neighbours el u) (queue, seen, dist) = (q1, s1, d1)"
    by (cases "fold (visit u) (neighbours el u) (queue, seen, dist)") auto
  from fold_visit_keeps_seed [OF f "2.prems"]
  have k: "length d1 = length s1" "length s1 = length seen" "s1 ! 0" "d1 ! 0 = 0" by simp_all
  from "2.prems"(2) k(2) have pos: "0 < length s1" by simp
  from "2.IH" [OF f [symmetric] refl k(1) pos k(3,4)] f k(2)
  show ?case by simp
qed

lemma shortest_distance_seed:
  assumes "0 < num_vertices g"
  shows "length (shortest_distance g 0) = num_vertices g" and "shortest_distance g 0 ! 0 = 0"
  using bfs_loop_keeps_seed [of "(replicate (num_vertices g) (word_of_int MAX_DIST))[0 := 0]"
      "(replicate (num_vertices g) False)[0 := True]" "edges g" "[0]"] assms
  by (simp_all add: shortest_distance_def)

lemma seed_in_subtree:
  assumes "0 < num_vertices g"
  shows "\<exists>sg. get_subtree_vertices g = Inr sg \<and> 0 \<in> set sg"
proof -
  let ?d = "shortest_distance g 0"
  from shortest_distance_seed [OF assms] assms have "(0, 0) \<in> set (enumerate 0 ?d)"
    by (simp add: in_set_enumerate_eq)
  moreover have "sint (0 :: 32 word) < MAX_DIST" by (simp add: MAX_DIST_def)
  ultimately have "0 \<in> fst ` set (filter (\<lambda>(i, v). sint v < MAX_DIST) (enumerate 0 ?d))"
    by force
  with assms show ?thesis by (simp add: get_subtree_vertices_def Let_def)
qed

subsection \<open>One pass splits the vertices\<close>

lemma vp_remove_vertex:
  "vp (remove_vertex g rm_list) =
   map (\<lambda>i. vp g ! i) (filter (\<lambda>i. i \<notin> set rm_list) [0..<num_vertices g])"
  by (simp add: remove_vertex_def)

lemma gp_remove_vertex:
  "gp_has_encrypted_files (remove_vertex g rm_list) = gp_has_encrypted_files g"
  by (simp add: remove_vertex_def)

lemma extract_iteration_vp:
  assumes "extract_iteration g (copy g) sg = (g', c)"
  shows "vp g' = map (\<lambda>i. vp g ! i) (filter (\<lambda>i. i \<notin> set sg) [0..<num_vertices g])"
    and "vp c = map (\<lambda>i. vp g ! i) (filter (\<lambda>i. i \<in> set sg) [0..<num_vertices g])"
proof -
  let ?n = "num_vertices g"
  have a: "filter (\<lambda>i. i \<notin> set (filter (\<lambda>v. v \<in> set sg) [0..<?n])) [0..<?n]
           = filter (\<lambda>i. i \<notin> set sg) [0..<?n]"
    by (rule filter_cong) auto
  have b: "filter (\<lambda>i. i \<notin> set (filter (\<lambda>v. v \<notin> set sg) [0..<?n])) [0..<?n]
           = filter (\<lambda>i. i \<in> set sg) [0..<?n]"
    by (rule filter_cong) auto
  from assms have g': "g' = remove_vertex g (filter (\<lambda>v. v \<in> set sg) [0..<?n])"
    and c: "c = remove_vertex g (filter (\<lambda>v. v \<notin> set sg) [0..<?n])"
    by (simp_all add: extract_iteration_def copy_def Let_def)
  show "vp g' = map (\<lambda>i. vp g ! i) (filter (\<lambda>i. i \<notin> set sg) [0..<?n])"
    by (simp only: g' vp_remove_vertex a)
  show "vp c = map (\<lambda>i. vp g ! i) (filter (\<lambda>i. i \<in> set sg) [0..<?n])"
    by (simp only: c vp_remove_vertex b)
qed

lemma extract_iteration_gp:
  assumes "extract_iteration g (copy g) sg = (g', c)"
  shows "gp_has_encrypted_files g' = gp_has_encrypted_files g"
    and "gp_has_encrypted_files c = gp_has_encrypted_files g"
  using assms by (auto simp: extract_iteration_def copy_def Let_def gp_remove_vertex)

lemma mset_map_filter_split:
  "mset (map f (filter (\<lambda>i. \<not> P i) xs)) + mset (map f (filter P xs)) = mset (map f xs)"
  by (induction xs) simp_all

lemma extract_iteration_mset:
  assumes "extract_iteration g (copy g) sg = (g', c)"
  shows "mset (vp g') + mset (vp c) = mset (vp g)"
proof -
  have "mset (vp g') + mset (vp c) = mset (map (\<lambda>i. vp g ! i) [0..<num_vertices g])"
    using mset_map_filter_split [of "\<lambda>i. vp g ! i" "\<lambda>i. i \<in> set sg" "[0..<num_vertices g]"]
    by (simp only: extract_iteration_vp [OF assms])
  also have "map (\<lambda>i. vp g ! i) [0..<num_vertices g] = vp g"
    by (simp add: num_vertices_def map_nth)
  finally show ?thesis .
qed

lemma extract_iteration_decreases:
  assumes "extract_iteration g (copy g) sg = (g', c)" and "0 \<in> set sg" and "0 < num_vertices g"
  shows "num_vertices g' < num_vertices g"
proof -
  have "length (filter (\<lambda>i. i \<notin> set sg) [0..<num_vertices g]) < length [0..<num_vertices g]"
    by (rule length_filter_less [of 0]) (use assms(2,3) in simp_all)
  then show ?thesis
    by (simp add: num_vertices_def extract_iteration_vp(1) [OF assms(1)])
qed

subsection \<open>The loop returns, and what it returns\<close>

lemma extract_loop_returns:
  "\<exists>cs g'. extract_loop g cands = Some (Inr (cs, g')) \<and> num_vertices g' = 0
     \<and> mset (concat (map vp cs)) = mset (concat (map vp cands)) + mset (vp g)"
proof (induction "num_vertices g" arbitrary: g cands rule: less_induct)
  case less
  show ?case
  proof (cases "0 < num_vertices g")
    case False
    then have "vp g = []" by (simp add: num_vertices_def)
    with False show ?thesis by (subst extract_loop.simps) simp
  next
    case True
    from seed_in_subtree [of "copy g"] True
    obtain sg where sg: "get_subtree_vertices (copy g) = Inr sg" and seed: "0 \<in> set sg"
      by (auto simp: copy_def)
    obtain g1 c where it: "extract_iteration g (copy g) sg = (g1, c)"
      by (cases "extract_iteration g (copy g) sg") auto
    let ?cands = "if num_vertices c \<noteq> 0 then cands @ [c] else cands"
    from extract_iteration_decreases [OF it seed True]
    have "num_vertices g1 < num_vertices g" .
    from less [OF this, of ?cands]
    obtain cs g' where r: "extract_loop g1 ?cands = Some (Inr (cs, g'))"
      and e: "num_vertices g' = 0"
      and m: "mset (concat (map vp cs)) = mset (concat (map vp ?cands)) + mset (vp g1)"
      by blast
    have "mset (concat (map vp ?cands)) = mset (concat (map vp cands)) + mset (vp c)"
      by (simp add: num_vertices_def)
    with m extract_iteration_mset [OF it]
    have "mset (concat (map vp cs)) = mset (concat (map vp cands)) + mset (vp g)"
      by (simp add: ac_simps)
    moreover from True sg it r have "extract_loop g cands = Some (Inr (cs, g'))"
      by (subst extract_loop.simps) simp
    ultimately show ?thesis using e by blast
  qed
qed

section \<open>Paths (posixpath)\<close>

text \<open>
  The functions of \<^verbatim>\<open>os.path\<close> that \<^verbatim>\<open>common/graph.py\<close> calls, for POSIX paths. A path
  is a string, its separator is \<open>/\<close>.
\<close>

text \<open>\<^verbatim>\<open>basename(p)\<close>: \<^verbatim>\<open>p[p.rfind('/') + 1:]\<close>, what follows the last separator.\<close>

definition basename :: "string \<Rightarrow> string" where
  "basename p = rev (takeWhile (\<lambda>c. c \<noteq> CHR ''/'') (rev p))"

definition rstrip_sep :: "string \<Rightarrow> string" where
  "rstrip_sep p = rev (dropWhile (\<lambda>c. c = CHR ''/'') (rev p))"

text \<open>
  \<^verbatim>\<open>split(p)\<close>: head and tail around the last separator; the trailing separators of
  the head are stripped unless the head consists of separators only.
\<close>

definition path_split :: "string \<Rightarrow> string \<times> string" where
  "path_split p =
     (let tail = basename p;
          head = take (length p - length tail) p
      in if head \<noteq> [] \<and> head \<noteq> replicate (length head) (CHR ''/'')
         then (rstrip_sep head, tail) else (head, tail))"

definition isabs :: "string \<Rightarrow> bool" where
  "isabs p = (take 1 p = ''/'')"

text \<open>\<^verbatim>\<open>join(a, b)\<close> of two components.\<close>

definition path_join :: "string \<Rightarrow> string \<Rightarrow> string" where
  "path_join a b =
     (if take 1 b = ''/'' then b
      else if a = [] \<or> last a = CHR ''/'' then a @ b
      else a @ ''/'' @ b)"

text \<open>\<^verbatim>\<open>str.split(sep)\<close> for a separator of one character.\<close>

fun split_on :: "char \<Rightarrow> string \<Rightarrow> string list" where
  "split_on c [] = [[]]"
| "split_on c (x # xs) =
     (if x = c then [] # split_on c xs
      else (case split_on c xs of [] \<Rightarrow> [[x]] | w # ws \<Rightarrow> (x # w) # ws))"

fun join_with :: "string \<Rightarrow> string list \<Rightarrow> string" where
  "join_with s [] = []"
| "join_with s [w] = w"
| "join_with s (w # ws) = w @ s @ join_with s ws"

text \<open>The body of the loop over the components in \<^verbatim>\<open>normpath\<close>.\<close>

definition norm_comp :: "nat \<Rightarrow> string \<Rightarrow> string list \<Rightarrow> string list" where
  "norm_comp initial_slashes component new_comps =
     (if component = [] \<or> component = ''.'' then new_comps
      else if component \<noteq> ''..'' \<or> (initial_slashes = 0 \<and> new_comps = [])
              \<or> (new_comps \<noteq> [] \<and> last new_comps = ''..'')
      then new_comps @ [component]
      else if new_comps \<noteq> [] then butlast new_comps
      else new_comps)"

definition normpath :: "string \<Rightarrow> string" where
  "normpath path =
     (if path = [] then ''.''
      else let initial_slashes =
                 (if take 1 path = ''/''
                  then (if take 2 path = ''//'' \<and> take 3 path \<noteq> ''///'' then 2 else 1)
                  else (0::nat));
               comps = fold (norm_comp initial_slashes) (split_on (CHR ''/'') path) [];
               path' = replicate initial_slashes (CHR ''/'') @ join_with ''/'' comps
           in if path' = [] then ''.'' else path')"

text \<open>\<^verbatim>\<open>abspath(path)\<close>, with the current directory of the process as an argument.\<close>

definition abspath :: "string \<Rightarrow> string \<Rightarrow> string" where
  "abspath cwd path = normpath (if isabs path then path else path_join cwd path)"

text \<open>\<^verbatim>\<open>s[-n:]\<close> for a positive \<open>n\<close>: the last \<open>n\<close> characters, all of \<open>s\<close> when it is shorter.\<close>

definition last_chars :: "nat \<Rightarrow> string \<Rightarrow> string" where
  "last_chars n s = drop (length s - n) s"

lemma rstrip_sep_take: "rstrip_sep p = take (length (rstrip_sep p)) p"
proof -
  have "rev (dropWhile (\<lambda>c. c = CHR ''/'') (rev p))
        = rev (drop (length (takeWhile (\<lambda>c. c = CHR ''/'') (rev p))) (rev p))"
    by (simp add: dropWhile_eq_drop)
  also have "\<dots> = take (length p - length (takeWhile (\<lambda>c. c = CHR ''/'') (rev p))) p"
    by (simp add: rev_drop)
  finally have e: "rstrip_sep p
      = take (length p - length (takeWhile (\<lambda>c. c = CHR ''/'') (rev p))) p"
    by (simp add: rstrip_sep_def)
  then have "length (rstrip_sep p) = length p - length (takeWhile (\<lambda>c. c = CHR ''/'') (rev p))"
    by simp
  with e show ?thesis by simp
qed

lemma path_split_head_take: "\<exists>k. fst (path_split p) = take k p"
proof -
  let ?head = "take (length p - length (basename p)) p"
  show ?thesis
  proof (cases "?head \<noteq> [] \<and> ?head \<noteq> replicate (length ?head) (CHR ''/'')")
    case True
    then have "fst (path_split p) = rstrip_sep ?head" by (simp add: path_split_def Let_def)
    also have "\<dots> = take (length (rstrip_sep ?head)) ?head" by (rule rstrip_sep_take)
    also have "\<dots> = take (min (length (rstrip_sep ?head)) (length p - length (basename p))) p"
      by (simp only: take_take)
    finally show ?thesis by blast
  next
    case False
    then have "fst (path_split p) = ?head" by (auto simp: path_split_def Let_def)
    then show ?thesis by blast
  qed
qed

lemma path_split_head_shorter:
  assumes "fst (path_split p) \<noteq> p"
  shows "length (fst (path_split p)) < length p"
proof -
  from path_split_head_take obtain k where k: "fst (path_split p) = take k p" by blast
  with assms have "k < length p" by (cases "k < length p") auto
  with k show ?thesis by simp
qed

text \<open>
  The \<^verbatim>\<open>while True\<close> loop of \<^verbatim>\<open>get_dir_depth\<close>: the path loses its last component
  in each pass, the components that are not empty are counted, and the loop stops when
  \<^verbatim>\<open>split\<close> no longer changes the head or the head is empty after a counted one.
\<close>

function depth_loop :: "string \<Rightarrow> int \<Rightarrow> int" where
  "depth_loop head dir_depth =
     (case path_split head of (head', tail) \<Rightarrow>
        if head = head' then dir_depth
        else if length tail = 0 then depth_loop head' dir_depth
        else if length head' = 0 then dir_depth + 1
        else depth_loop head' (dir_depth + 1))"
  by pat_completeness auto
termination
proof (relation "measure (\<lambda>(head, dir_depth). length head)", goal_cases)
  case 1
  show ?case by simp
next
  case (2 head dir_depth head' tail)
  then have "fst (path_split head) \<noteq> head" by (metis fst_conv)
  from path_split_head_shorter [OF this] 2 show ?case by (metis fst_conv in_measure case_prod_conv)
next
  case (3 head dir_depth head' tail)
  then have "fst (path_split head) \<noteq> head" by (metis fst_conv)
  from path_split_head_shorter [OF this] 3 show ?case by (metis fst_conv in_measure case_prod_conv)
qed

declare depth_loop.simps [simp del]

section \<open>The vertex properties and the walker (common/graph.py)\<close>

text \<open>
  The vertex properties that \<^verbatim>\<open>DblingGraph.__init__\<close> declares, one field for each
  property map. Numbers are kept as unbounded integers.
\<close>

record vertex_props =
  vp_inode :: int
  vp_parent_inode :: int
  vp_filename :: string
  vp_filename_id :: string
  vp_filename_end :: string
  vp_filename_b_len :: int
  vp_name_type :: string
  vp_type :: "int list"
  vp_filesize :: string
  vp_encrypted :: bool
  vp_eval :: bool
  vp_size :: string
  vp_mode :: string
  vp_uid :: string
  vp_gid :: string
  vp_nlink :: string
  vp_mtime :: string
  vp_ctime :: string
  vp_atime :: string
  vp_dir_depth :: int
  vp_gt_min_depth :: bool
  vp_keeper :: bool

type_synonym dbling_graph = "vertex_props graph"

text \<open>The values a new vertex has in every property map: the defaults of the value
  types, and \<^verbatim>\<open>True\<close> for \<^verbatim>\<open>keeper\<close>.\<close>

definition default_props :: vertex_props where
  "default_props =
     \<lparr>vp_inode = 0, vp_parent_inode = 0, vp_filename = [], vp_filename_id = [],
      vp_filename_end = [], vp_filename_b_len = 0, vp_name_type = [], vp_type = [],
      vp_filesize = [], vp_encrypted = False, vp_eval = False, vp_size = [], vp_mode = [],
      vp_uid = [], vp_gid = [], vp_nlink = [], vp_mtime = [], vp_ctime = [], vp_atime = [],
      vp_dir_depth = 0, vp_gt_min_depth = False, vp_keeper = True\<rparr>"

text \<open>\<^verbatim>\<open>DblingGraph()\<close>: no vertex, no edge, \<^verbatim>\<open>has_encrypted_files\<close> false.\<close>

definition DblingGraph :: dbling_graph where
  "DblingGraph = \<lparr>vp = [], edges = [], gp_has_encrypted_files = False\<rparr>"

definition add_vertex :: "dbling_graph \<Rightarrow> nat \<times> dbling_graph" where
  "add_vertex g = (num_vertices g, g\<lparr>vp := vp g @ [default_props]\<rparr>)"

definition add_edge :: "nat \<Rightarrow> nat \<Rightarrow> 'a graph \<Rightarrow> 'a graph" where
  "add_edge s t g = g\<lparr>edges := edges g @ [(s, t)]\<rparr>"

text \<open>\<^verbatim>\<open>vertex.in_neighbours()\<close>: the sources of the edges into the vertex.\<close>

definition in_neighbours :: "'a graph \<Rightarrow> nat \<Rightarrow> nat list" where
  "in_neighbours g v = map fst (filter (\<lambda>(s, t). t = v) (edges g))"

text \<open>Assignments \<^verbatim>\<open>digraph.vp[...][vertex] = ...\<close> to the property values of one vertex.\<close>

definition set_props :: "dbling_graph \<Rightarrow> nat \<Rightarrow> (vertex_props \<Rightarrow> vertex_props) \<Rightarrow> dbling_graph" where
  "set_props g v f = g\<lparr>vp := (vp g)[v := f (vp g ! v)]\<rparr>"

text \<open>The fields of \<^verbatim>\<open>os.stat_result\<close> that are read; the times in seconds.\<close>

record stat_result =
  st_mode :: int
  st_ino :: int
  st_size :: int
  st_uid :: int
  st_gid :: int
  st_nlink :: int
  st_mtime :: int
  st_ctime :: int
  st_atime :: int

text \<open>
  \<^verbatim>\<open>common/const.py\<close> and \<^verbatim>\<open>common/util.py\<close> are not among the sources. What
  \<^verbatim>\<open>common/graph.py\<close> imports from them is a parameter of the model: each regular
  expression is given by what the call made with it returns (\<^verbatim>\<open>re.match\<close> or
  \<^verbatim>\<open>re.search\<close> finding a match for the two predicates, group 1 of the match of
  \<^verbatim>\<open>re.search\<close> for \<^verbatim>\<open>SLICE_PAT\<close>), \<^verbatim>\<open>ISO_TIME\<close> by the string that
  \<^verbatim>\<open>strftime\<close> makes of a time with it, \<^verbatim>\<open>TYPE_TO_NAME\<close> is a dictionary.
\<close>

record const =
  EVAL_NONE :: bool
  IN_PAT_VAULT :: "string \<Rightarrow> bool"
  ENC_PAT :: "string \<Rightarrow> bool"
  MIN_DEPTH :: int
  SLICE_PAT :: "string \<Rightarrow> string option"
  ISO_TIME :: "int \<Rightarrow> string"
  TYPE_TO_NAME :: "int \<rightharpoonup> string"
  separate_mode_type :: "int \<Rightarrow> int \<times> int"
  byte_len :: "string \<Rightarrow> int"

text \<open>
  The operating system and the hash library as the walker sees them: the current
  directory, \<^verbatim>\<open>os.stat(path, follow_symlinks=False)\<close> (\<open>None\<close> when it raises
  \<^verbatim>\<open>OSError\<close>), the triples (dirpath, dirnames, filenames) that \<^verbatim>\<open>os.walk\<close> yields
  for a directory, \<^verbatim>\<open>os.path.isdir\<close>, and \<^verbatim>\<open>sha256(bytes).hexdigest()\<close>.
\<close>

record os_env =
  getcwd :: string
  os_stat :: "string \<Rightarrow> stat_result option"
  os_walk :: "string \<Rightarrow> (string \<times> string list \<times> string list) list"
  isdir :: "string \<Rightarrow> bool"
  sha256_hexdigest :: "8 word list \<Rightarrow> string"

text \<open>\<^verbatim>\<open>str.encode('utf-8')\<close>; a character of a \<open>string\<close> is a code point below 256,
  which takes one byte below 128 and two bytes from 128 on.\<close>

definition encode_utf8 :: "string \<Rightarrow> 8 word list" where
  "encode_utf8 s =
     concat (map (\<lambda>c. let n = (of_char c :: nat)
                       in if n < 128 then [of_nat n]
                          else [of_nat (192 + n div 64), of_nat (128 + n mod 64)]) s)"

text \<open>\<^verbatim>\<open>str(n)\<close> for an integer.\<close>

function str_digits :: "int \<Rightarrow> string" where
  "str_digits i =
     (if i < 10 then [char_of (48 + i)]
      else str_digits (i div 10) @ [char_of (48 + i mod 10)])"
  by pat_completeness auto
termination
  by (relation "measure nat") auto

declare str_digits.simps [simp del]

definition str_int :: "int \<Rightarrow> string" where
  "str_int i = (if i < 0 then ''-'' @ str_digits (- i) else str_digits i)"

text \<open>\<^verbatim>\<open>get_dir_depth(filename, slice_path=False)\<close>.\<close>

definition get_dir_depth :: "const \<Rightarrow> string \<Rightarrow> bool \<Rightarrow> int" where
  "get_dir_depth C filename slice_path =
     (let filename' = (if slice_path
                       then (case SLICE_PAT C filename of Some m \<Rightarrow> m | None \<Rightarrow> filename)
                       else filename)
      in depth_loop filename' 0)"

text \<open>The path that depth and the two patterns are computed from in
  \<^verbatim>\<open>set_vertex_props\<close>.\<close>

definition sliced_fn :: "const \<Rightarrow> bool \<Rightarrow> string \<Rightarrow> string" where
  "sliced_fn C slice_path filename =
     (if slice_path then (case SLICE_PAT C filename of Some m \<Rightarrow> m | None \<Rightarrow> filename)
      else filename)"

text \<open>
  \<^verbatim>\<open>set_vertex_props(digraph, vertex, filename, slice_path)\<close>. The graph is changed in
  place, so the result carries the graph: \<open>Inr\<close> of the graph and the returned digest,
  or \<open>Inl\<close> of the exception and the graph as it is when the exception leaves the
  function. \<^verbatim>\<open>os.stat\<close> is called before any assignment and nothing catches what it
  raises; \<^verbatim>\<open>TYPE_TO_NAME[t]\<close> raises \<^verbatim>\<open>KeyError\<close> after the first assignments.
\<close>

definition set_vertex_props ::
  "const \<Rightarrow> os_env \<Rightarrow> dbling_graph \<Rightarrow> nat \<Rightarrow> string \<Rightarrow> bool
   \<Rightarrow> (exn \<times> dbling_graph) + (dbling_graph \<times> string)" where
  "set_vertex_props C E digraph vertex fname slice_path =
     (let filename = abspath (getcwd E) fname
      in case os_stat E filename of
           None \<Rightarrow> Inl (OSError, digraph)
         | Some st \<Rightarrow>
             (let filename_id = sha256_hexdigest E (encode_utf8 filename);
                  (m, t) = separate_mode_type C (st_mode st);
                  sliced = sliced_fn C slice_path filename;
                  dir_depth = get_dir_depth C sliced False;
                  g1 = (case in_neighbours digraph vertex of
                          [] \<Rightarrow> digraph
                        | parent_ver # _ \<Rightarrow>
                            set_props digraph vertex
                              (\<lambda>p. p\<lparr>vp_parent_inode := vp_inode (vp digraph ! parent_ver)\<rparr>));
                  g2 = set_props g1 vertex
                         (\<lambda>p. p\<lparr>vp_inode := st_ino st,
                                 vp_filename := filename,
                                 vp_filename_id := filename_id,
                                 vp_filename_end := basename (last_chars 13 filename),
                                 vp_filename_b_len := byte_len C (basename filename)\<rparr>)
              in case TYPE_TO_NAME C t of
                   None \<Rightarrow> Inl (KeyError, g2)
                 | Some name \<Rightarrow>
                     (let g3 = set_props g2 vertex
                                 (\<lambda>p. p\<lparr>vp_name_type := name,
                                         vp_type := [t],
                                         vp_filesize := str_int (st_size st),
                                         vp_size := str_int (st_size st),
                                         vp_encrypted := ENC_PAT C sliced,
                                         vp_eval := EVAL_NONE C,
                                         vp_dir_depth := dir_depth,
                                         vp_gt_min_depth :=
                                           (IN_PAT_VAULT C sliced \<and> dir_depth \<ge> MIN_DEPTH C),
                                         vp_mode := str_int m,
                                         vp_uid := str_int (st_uid st),
                                         vp_gid := str_int (st_gid st),
                                         vp_nlink := str_int (st_nlink st),
                                         vp_mtime := ISO_TIME C (st_mtime st),
                                         vp_ctime := ISO_TIME C (st_ctime st),
                                         vp_atime := ISO_TIME C (st_atime st)\<rparr>);
                          g4 = (if vp_encrypted (vp g3 ! vertex)
                                then g3\<lparr>gp_has_encrypted_files := True\<rparr> else g3)
                      in Inr (g4, filename_id))))"

text \<open>
  The state of the loops of \<^verbatim>\<open>make_graph_from_dir\<close>: the graph, the dictionary
  \<^verbatim>\<open>id_to_vertex\<close> and the counter \<^verbatim>\<open>ttl_objects\<close>.
\<close>

type_synonym walk_state = "dbling_graph \<times> (string \<rightharpoonup> nat) \<times> nat"

text \<open>The inner loop, \<^verbatim>\<open>for f in dirnames + filenames\<close>. The dictionary is read
  before \<^verbatim>\<open>add_edge\<close> is called, after the vertex has been added.\<close>

fun add_children ::
  "const \<Rightarrow> os_env \<Rightarrow> bool \<Rightarrow> string \<Rightarrow> string \<Rightarrow> string list \<Rightarrow> walk_state
   \<Rightarrow> (exn \<times> dbling_graph) + walk_state" where
  "add_children C E slice_path dirpath dir_id [] s = Inr s"
| "add_children C E slice_path dirpath dir_id (f # fs) (digr, id_to_vertex, ttl_objects) =
     (let full_filename = path_join dirpath f;
          (vertex, g1) = add_vertex digr
      in case id_to_vertex dir_id of
           None \<Rightarrow> Inl (KeyError, g1)
         | Some parent \<Rightarrow>
             (case set_vertex_props C E (add_edge parent vertex g1) vertex full_filename slice_path of
                Inl e \<Rightarrow> Inl e
              | Inr (g2, vertex_id) \<Rightarrow>
                  add_children C E slice_path dirpath dir_id fs
                    (g2, id_to_vertex(vertex_id \<mapsto> vertex), ttl_objects + 1)))"

text \<open>The outer loop, over the triples of \<^verbatim>\<open>os.walk(top_dir)\<close>.\<close>

fun walk_dirs ::
  "const \<Rightarrow> os_env \<Rightarrow> bool \<Rightarrow> (string \<times> string list \<times> string list) list \<Rightarrow> walk_state
   \<Rightarrow> (exn \<times> dbling_graph) + walk_state" where
  "walk_dirs C E slice_path [] s = Inr s"
| "walk_dirs C E slice_path ((dirpath, dirnames, filenames) # rest) s =
     (let dir_id = sha256_hexdigest E (encode_utf8 (abspath (getcwd E) dirpath))
      in case add_children C E slice_path dirpath dir_id (dirnames @ filenames) s of
           Inl e \<Rightarrow> Inl e
         | Inr s' \<Rightarrow> walk_dirs C E slice_path rest s')"

text \<open>What a caller may pass as \<^verbatim>\<open>digr\<close>: \<^verbatim>\<open>None\<close> (the default), an object that is
  not a \<^verbatim>\<open>DblingGraph\<close>, or a \<^verbatim>\<open>DblingGraph\<close>.\<close>

datatype digr_arg = PyNone | NotADblingGraph | Given dbling_graph

text \<open>The first lines of \<^verbatim>\<open>make_graph_from_dir\<close>: the graph to fill and
  \<^verbatim>\<open>slice_path\<close>.\<close>

fun init_digr :: "digr_arg \<Rightarrow> dbling_graph \<times> bool" where
  "init_digr (Given g) = (g, True)"
| "init_digr PyNone = (DblingGraph, False)"
| "init_digr NotADblingGraph = (DblingGraph, False)"

text \<open>
  \<^verbatim>\<open>make_graph_from_dir(top_dir, digr)\<close>: \<open>Inr\<close> of the returned graph, or \<open>Inl\<close> of
  the exception with the graph as it is at that moment (none when the assertion on
  \<^verbatim>\<open>top_dir\<close> fails, before a graph exists).
\<close>

definition make_graph_from_dir ::
  "const \<Rightarrow> os_env \<Rightarrow> string \<Rightarrow> digr_arg \<Rightarrow> (exn \<times> dbling_graph option) + dbling_graph" where
  "make_graph_from_dir C E top_dir digr =
     (if \<not> isdir E top_dir then Inl (AssertionError, None)
      else case init_digr digr of (g0, slice_path) \<Rightarrow>
        (case add_vertex g0 of (dir_v, g1) \<Rightarrow>
           (case set_vertex_props C E g1 dir_v top_dir slice_path of
              Inl (e, g) \<Rightarrow> Inl (e, Some g)
            | Inr (g2, top_id) \<Rightarrow>
                (case walk_dirs C E slice_path (os_walk E top_dir)
                        (g2, [top_id \<mapsto> dir_v], 1) of
                   Inl (e, g) \<Rightarrow> Inl (e, Some g)
                 | Inr (g3, id_to_vertex, ttl_objects) \<Rightarrow> Inr g3))))"

text \<open>\<^verbatim>\<open>DblingGraph.save\<close> and \<^verbatim>\<open>DblingGraph.load\<close>. The files are a map from file
  names to the graphs written to them; both methods call \<^verbatim>\<open>graph_tool.Graph.save\<close>,
  which writes the graph to the file, and both return the graph object as it is then
  and the files.\<close>

type_synonym files = "string \<rightharpoonup> dbling_graph"

definition Graph_save :: "dbling_graph \<Rightarrow> string \<Rightarrow> files \<Rightarrow> dbling_graph \<times> files" where
  "Graph_save g file_name fs = (g, fs(file_name \<mapsto> g))"

definition save :: "dbling_graph \<Rightarrow> string \<Rightarrow> files \<Rightarrow> dbling_graph \<times> files" where
  "save self file_name fs = Graph_save self file_name fs"

definition load :: "dbling_graph \<Rightarrow> string \<Rightarrow> files \<Rightarrow> dbling_graph \<times> files" where
  "load self file_name fs = Graph_save self file_name fs"

section \<open>A small file system for running the model\<close>

text \<open>
  Two directories: \<^verbatim>\<open>/mnt\<close> holds \<^verbatim>\<open>vault/k.enc\<close> and \<^verbatim>\<open>a.txt\<close>, \<^verbatim>\<open>/top\<close> holds
  \<^verbatim>\<open>b\<close>. The configuration slices the mount point \<^verbatim>\<open>/mnt\<close> off a path, takes a path
  under \<^verbatim>\<open>/vault\<close> to be in the vault and a name that ends in \<^verbatim>\<open>.enc\<close> to be
  encrypted. In place of SHA-256 the example writes the bytes out in hexadecimal; the
  theorems below hold for any digest.
\<close>

definition hex_bytes :: "8 word list \<Rightarrow> string" where
  "hex_bytes bs =
     concat (map (\<lambda>b. [''0123456789abcdef'' ! (unat b div 16),
                          ''0123456789abcdef'' ! (unat b mod 16)]) bs)"

definition example_stat :: "int \<Rightarrow> int \<Rightarrow> stat_result" where
  "example_stat m i = \<lparr>st_mode = m, st_ino = i, st_size = 10, st_uid = 0, st_gid = 0,
     st_nlink = 1, st_mtime = 5, st_ctime = 6, st_atime = 7\<rparr>"

definition example_const :: const where
  "example_const =
     \<lparr>EVAL_NONE = False,
      IN_PAT_VAULT = (\<lambda>s. take 6 s = ''/vault''),
      ENC_PAT = (\<lambda>s. last_chars 4 s = ''.enc''),
      MIN_DEPTH = 2,
      SLICE_PAT = (\<lambda>s. if take 5 s = ''/mnt/'' then Some (drop 4 s) else None),
      ISO_TIME = str_int,
      TYPE_TO_NAME = [4 \<mapsto> ''dir'', 8 \<mapsto> ''reg''],
      separate_mode_type = (\<lambda>m. (m mod 4096, m div 4096)),
      byte_len = (\<lambda>s. int (length (encode_utf8 s)))\<rparr>"

definition example_env :: os_env where
  "example_env =
     \<lparr>getcwd = ''/'',
      os_stat = map_of
        [(''/mnt'', example_stat 16877 2), (''/mnt/vault'', example_stat 16877 11),
         (''/mnt/a.txt'', example_stat 33188 12), (''/mnt/vault/k.enc'', example_stat 33188 13),
         (''/top'', example_stat 16877 20), (''/top/b'', example_stat 33188 21)],
      os_walk = (\<lambda>top_dir.
         if top_dir = ''/mnt''
         then [(''/mnt'', [''vault''], [''a.txt'']), (''/mnt/vault'', [], [''k.enc''])]
         else if top_dir = ''/top'' then [(''/top'', [], [''b''])] else []),
      isdir = (\<lambda>p. p = ''/mnt'' \<or> p = ''/top''),
      sha256_hexdigest = hex_bytes\<rparr>"

text \<open>The same file system with \<^verbatim>\<open>os.stat\<close> failing for \<^verbatim>\<open>/mnt/a.txt\<close>.\<close>

definition failing_env :: os_env where
  "failing_env = example_env\<lparr>os_stat := (os_stat example_env)(''/mnt/a.txt'' := None)\<rparr>"

text \<open>A vertex as the walks of the example leave it: the properties that differ from
  object to object are the arguments.\<close>

definition example_vertex ::
  "int \<Rightarrow> int \<Rightarrow> string \<Rightarrow> string \<Rightarrow> string \<Rightarrow> int \<Rightarrow> string \<Rightarrow> int \<Rightarrow> string \<Rightarrow> bool \<Rightarrow> int \<Rightarrow> bool
   \<Rightarrow> vertex_props" where
  "example_vertex ino parent fname fid fend blen tname t perm enc depth gt =
     \<lparr>vp_inode = ino, vp_parent_inode = parent, vp_filename = fname, vp_filename_id = fid,
      vp_filename_end = fend, vp_filename_b_len = blen, vp_name_type = tname, vp_type = [t],
      vp_filesize = ''10'', vp_encrypted = enc, vp_eval = False, vp_size = ''10'',
      vp_mode = perm, vp_uid = ''0'', vp_gid = ''0'', vp_nlink = ''1'', vp_mtime = ''5'',
      vp_ctime = ''6'', vp_atime = ''7'', vp_dir_depth = depth, vp_gt_min_depth = gt,
      vp_keeper = True\<rparr>"

text \<open>The graph of the walk of \<^verbatim>\<open>/mnt\<close> into a new graph.\<close>

definition mnt_tree :: dbling_graph where
  "mnt_tree =
     \<lparr>vp =
       [example_vertex 2 0 ''/mnt'' ''2f6d6e74'' ''mnt'' 3 ''dir'' 4 ''493'' False 1 False,
        example_vertex 11 2 ''/mnt/vault'' ''2f6d6e742f7661756c74'' ''vault'' 5 ''dir'' 4 ''493'' False 2 False,
        example_vertex 12 2 ''/mnt/a.txt'' ''2f6d6e742f612e747874'' ''a.txt'' 5 ''reg'' 8 ''420'' False 2 False,
        example_vertex 13 11 ''/mnt/vault/k.enc'' ''2f6d6e742f7661756c742f6b2e656e63'' ''k.enc'' 5 ''reg'' 8 ''420'' True 3 False],
     edges = [(0, 1), (0, 2), (1, 3)], gp_has_encrypted_files = True\<rparr>"

text \<open>The graph of the walk of \<^verbatim>\<open>/top\<close> into a new graph.\<close>

definition top_tree :: dbling_graph where
  "top_tree =
     \<lparr>vp =
       [example_vertex 20 0 ''/top'' ''2f746f70'' ''top'' 3 ''dir'' 4 ''493'' False 1 False,
        example_vertex 21 20 ''/top/b'' ''2f746f702f62'' ''b'' 1 ''reg'' 8 ''420'' False 2 False],
     edges = [(0, 1)], gp_has_encrypted_files = False\<rparr>"

text \<open>The graph of the walk of \<^verbatim>\<open>/mnt\<close> into the graph of \<^verbatim>\<open>/top\<close>: the paths under
  \<^verbatim>\<open>/mnt\<close> are sliced.\<close>

definition both_trees :: dbling_graph where
  "both_trees =
     \<lparr>vp =
       [example_vertex 20 0 ''/top'' ''2f746f70'' ''top'' 3 ''dir'' 4 ''493'' False 1 False,
        example_vertex 21 20 ''/top/b'' ''2f746f702f62'' ''b'' 1 ''reg'' 8 ''420'' False 2 False,
        example_vertex 2 0 ''/mnt'' ''2f6d6e74'' ''mnt'' 3 ''dir'' 4 ''493'' False 1 False,
        example_vertex 11 2 ''/mnt/vault'' ''2f6d6e742f7661756c74'' ''vault'' 5 ''dir'' 4 ''493'' False 1 False,
        example_vertex 12 2 ''/mnt/a.txt'' ''2f6d6e742f612e747874'' ''a.txt'' 5 ''reg'' 8 ''420'' False 1 False,
        example_vertex 13 11 ''/mnt/vault/k.enc'' ''2f6d6e742f7661756c742f6b2e656e63'' ''k.enc'' 5 ''reg'' 8 ''420'' True 2 True],
     edges = [(0, 1), (2, 3), (2, 4), (3, 5)], gp_has_encrypted_files = True\<rparr>"

text \<open>The two candidates that the extraction makes of it.\<close>

definition top_candidate :: dbling_graph where
  "top_candidate =
     \<lparr>vp =
       [example_vertex 20 0 ''/top'' ''2f746f70'' ''top'' 3 ''dir'' 4 ''493'' False 1 False,
        example_vertex 21 20 ''/top/b'' ''2f746f702f62'' ''b'' 1 ''reg'' 8 ''420'' False 2 False],
     edges = [(0, 1)], gp_has_encrypted_files = True\<rparr>"

definition mnt_candidate :: dbling_graph where
  "mnt_candidate =
     \<lparr>vp =
       [example_vertex 2 0 ''/mnt'' ''2f6d6e74'' ''mnt'' 3 ''dir'' 4 ''493'' False 1 False,
        example_vertex 11 2 ''/mnt/vault'' ''2f6d6e742f7661756c74'' ''vault'' 5 ''dir'' 4 ''493'' False 1 False,
        example_vertex 12 2 ''/mnt/a.txt'' ''2f6d6e742f612e747874'' ''a.txt'' 5 ''reg'' 8 ''420'' False 1 False,
        example_vertex 13 11 ''/mnt/vault/k.enc'' ''2f6d6e742f7661756c742f6b2e656e63'' ''k.enc'' 5 ''reg'' 8 ''420'' True 2 True],
     edges = [(0, 1), (0, 2), (1, 3)], gp_has_encrypted_files = True\<rparr>"

text \<open>The graph at the moment \<^verbatim>\<open>os.stat\<close> fails for \<^verbatim>\<open>/mnt/a.txt\<close>.\<close>

definition failed_walk :: dbling_graph where
  "failed_walk =
     \<lparr>vp =
       [example_vertex 2 0 ''/mnt'' ''2f6d6e74'' ''mnt'' 3 ''dir'' 4 ''493'' False 1 False,
        example_vertex 11 2 ''/mnt/vault'' ''2f6d6e742f7661756c74'' ''vault'' 5 ''dir'' 4 ''493'' False 2 False,
        default_props],
     edges = [(0, 1), (0, 2)], gp_has_encrypted_files = False\<rparr>"

subsection \<open>What one call of set\_vertex\_props changes\<close>

lemma set_props_simps:
  "length (vp (set_props g v f)) = length (vp g)"
  "edges (set_props g v f) = edges g"
  "gp_has_encrypted_files (set_props g v f) = gp_has_encrypted_files g"
  "w \<noteq> v \<Longrightarrow> vp (set_props g v f) ! w = vp g ! w"
  "v < length (vp g) \<Longrightarrow> vp (set_props g v f) ! v = f (vp g ! v)"
  by (simp_all add: set_props_def)

lemma set_vertex_props_stat_fails:
  "os_stat E (abspath (getcwd E) fn) = None \<Longrightarrow>
   set_vertex_props C E g v fn sl = Inl (OSError, g)"
  by (simp add: set_vertex_props_def)

lemma set_vertex_props_frame:
  assumes "set_vertex_props C E g v fn sl = Inr (g', fid)"
  shows "length (vp g') = length (vp g)" and "edges g' = edges g"
    and "\<And>w. w \<noteq> v \<Longrightarrow> vp g' ! w = vp g ! w"
  using assms
  by (auto simp: set_vertex_props_def Let_def set_props_simps
      split: option.splits prod.splits list.splits if_splits)

lemma set_vertex_props_new:
  assumes "set_vertex_props C E g v fn sl = Inr (g', fid)" and "v < length (vp g)"
  shows "vp_filename (vp g' ! v) = abspath (getcwd E) fn"
    and "fid = sha256_hexdigest E (encode_utf8 (abspath (getcwd E) fn))"
    and "vp_filename_id (vp g' ! v) = fid"
    and "vp_filename_end (vp g' ! v) = basename (last_chars 13 (abspath (getcwd E) fn))"
    and "vp_encrypted (vp g' ! v) = ENC_PAT C (sliced_fn C sl (abspath (getcwd E) fn))"
    and "vp_dir_depth (vp g' ! v) = get_dir_depth C (sliced_fn C sl (abspath (getcwd E) fn)) False"
    and "vp_gt_min_depth (vp g' ! v) =
           (IN_PAT_VAULT C (sliced_fn C sl (abspath (getcwd E) fn))
            \<and> MIN_DEPTH C \<le> get_dir_depth C (sliced_fn C sl (abspath (getcwd E) fn)) False)"
    and "Some (vp_inode (vp g' ! v)) = map_option st_ino (os_stat E (abspath (getcwd E) fn))"
    and "vp_parent_inode (vp g' ! v) =
           (case in_neighbours g v of [] \<Rightarrow> vp_parent_inode (vp g ! v)
            | parent_ver # _ \<Rightarrow> vp_inode (vp g ! parent_ver))"
    and "gp_has_encrypted_files g' = (gp_has_encrypted_files g \<or> vp_encrypted (vp g' ! v))"
  using assms
  by (auto simp: set_vertex_props_def Let_def set_props_simps
      split: option.splits prod.splits list.splits if_splits)


subsection \<open>Invariants of the walk\<close>

lemma add_vertex_simps:
  "fst (add_vertex g) = num_vertices g"
  "vp (snd (add_vertex g)) = vp g @ [default_props]"
  "edges (snd (add_vertex g)) = edges g"
  "gp_has_encrypted_files (snd (add_vertex g)) = gp_has_encrypted_files g"
  "num_vertices (snd (add_vertex g)) = Suc (num_vertices g)"
  by (simp_all add: add_vertex_def num_vertices_def)

lemma add_edge_simps:
  "vp (add_edge s t g) = vp g"
  "edges (add_edge s t g) = edges g @ [(s, t)]"
  "gp_has_encrypted_files (add_edge s t g) = gp_has_encrypted_files g"
  "num_vertices (add_edge s t g) = num_vertices g"
  by (simp_all add: add_edge_def num_vertices_def)

lemma child_num_vertices:
  assumes "set_vertex_props C E (add_edge p (num_vertices g) (snd (add_vertex g)))
             (num_vertices g) fn sl = Inr (g', fid)"
  shows "num_vertices g' = Suc (num_vertices g)"
  using set_vertex_props_frame(1) [OF assms]
  by (simp add: num_vertices_def add_edge_simps add_vertex_simps)

lemma add_children_Cons_Inr:
  assumes "add_children C E sl dp did (f # fs) (g, idv, ttl) = Inr s'"
  obtains p g2 vid where "idv did = Some p"
    and "set_vertex_props C E (add_edge p (num_vertices g) (snd (add_vertex g)))
           (num_vertices g) (path_join dp f) sl = Inr (g2, vid)"
    and "add_children C E sl dp did fs (g2, idv(vid \<mapsto> num_vertices g), ttl + 1) = Inr s'"
  using assms
  by (auto simp: add_vertex_def Let_def split: option.splits sum.splits)

lemma add_children_invariant:
  assumes step: "\<And>g p fn g' fid. I g \<Longrightarrow> p < num_vertices g \<Longrightarrow>
      set_vertex_props C E (add_edge p (num_vertices g) (snd (add_vertex g)))
        (num_vertices g) fn sl = Inr (g', fid) \<Longrightarrow> I g'"
  shows "add_children C E sl dp did fs (g, idv, ttl) = Inr (g', idv', ttl') \<Longrightarrow>
     I g \<Longrightarrow> (\<forall>k p. idv k = Some p \<longrightarrow> p < num_vertices g) \<Longrightarrow>
     I g' \<and> (\<forall>k p. idv' k = Some p \<longrightarrow> p < num_vertices g')"
proof (induction fs arbitrary: g idv ttl)
  case Nil
  then show ?case by simp
next
  case (Cons f fs)
  from Cons.prems(1) obtain p g2 vid where p: "idv did = Some p"
    and s: "set_vertex_props C E (add_edge p (num_vertices g) (snd (add_vertex g)))
           (num_vertices g) (path_join dp f) sl = Inr (g2, vid)"
    and r: "add_children C E sl dp did fs (g2, idv(vid \<mapsto> num_vertices g), ttl + 1)
           = Inr (g', idv', ttl')"
    by (rule add_children_Cons_Inr)
  from p Cons.prems(3) have pn: "p < num_vertices g" by blast
  from step [OF Cons.prems(2) pn s] have I2: "I g2" .
  from child_num_vertices [OF s] have n2: "num_vertices g2 = Suc (num_vertices g)" .
  with Cons.prems(3)
  have "\<forall>k q. (idv(vid \<mapsto> num_vertices g)) k = Some q \<longrightarrow> q < num_vertices g2"
    by (auto simp: less_Suc_eq)
  from Cons.IH [OF r I2 this] show ?case .
qed

lemma walk_dirs_invariant:
  assumes step: "\<And>g p fn g' fid. I g \<Longrightarrow> p < num_vertices g \<Longrightarrow>
      set_vertex_props C E (add_edge p (num_vertices g) (snd (add_vertex g)))
        (num_vertices g) fn sl = Inr (g', fid) \<Longrightarrow> I g'"
  shows "walk_dirs C E sl ts (g, idv, ttl) = Inr (g', idv', ttl') \<Longrightarrow>
     I g \<Longrightarrow> (\<forall>k p. idv k = Some p \<longrightarrow> p < num_vertices g) \<Longrightarrow>
     I g' \<and> (\<forall>k p. idv' k = Some p \<longrightarrow> p < num_vertices g')"
proof (induction ts arbitrary: g idv ttl)
  case Nil
  then show ?case by simp
next
  case (Cons t ts)
  obtain dp dns fns where t: "t = (dp, dns, fns)" by (cases t) auto
  let ?did = "sha256_hexdigest E (encode_utf8 (abspath (getcwd E) dp))"
  from Cons.prems(1) t obtain g1 idv1 ttl1 where
    a: "add_children C E sl dp ?did (dns @ fns) (g, idv, ttl) = Inr (g1, idv1, ttl1)"
    and r: "walk_dirs C E sl ts (g1, idv1, ttl1) = Inr (g', idv', ttl')"
    by (auto simp: Let_def split: sum.splits)
  from add_children_invariant [of I C E sl, OF step a Cons.prems(2,3)]
  have "I g1" and "\<forall>k p. idv1 k = Some p \<longrightarrow> p < num_vertices g1" by simp_all
  from Cons.IH [OF r this] show ?case .
qed

lemma make_graph_from_dir_Inr:
  assumes "make_graph_from_dir C E top_dir digr = Inr g"
  obtains g0 sl g2 top_id idv ttl where "init_digr digr = (g0, sl)"
    and "set_vertex_props C E (snd (add_vertex g0)) (num_vertices g0) top_dir sl = Inr (g2, top_id)"
    and "walk_dirs C E sl (os_walk E top_dir) (g2, [top_id \<mapsto> num_vertices g0], 1) = Inr (g, idv, ttl)"
  using assms
  by (auto simp: make_graph_from_dir_def add_vertex_def split: if_splits prod.splits sum.splits)

lemma make_graph_from_dir_invariant:
  assumes run: "make_graph_from_dir C E top_dir digr = Inr g"
    and root: "\<And>g2 fid. set_vertex_props C E (snd (add_vertex (fst (init_digr digr))))
         (num_vertices (fst (init_digr digr))) top_dir (snd (init_digr digr)) = Inr (g2, fid) \<Longrightarrow> I g2"
    and step: "\<And>g p fn g' fid. I g \<Longrightarrow> p < num_vertices g \<Longrightarrow>
      set_vertex_props C E (add_edge p (num_vertices g) (snd (add_vertex g)))
        (num_vertices g) fn (snd (init_digr digr)) = Inr (g', fid) \<Longrightarrow> I g'"
  shows "I g"
proof -
  from run obtain g0 sl g2 top_id idv ttl where i: "init_digr digr = (g0, sl)"
    and s: "set_vertex_props C E (snd (add_vertex g0)) (num_vertices g0) top_dir sl = Inr (g2, top_id)"
    and w: "walk_dirs C E sl (os_walk E top_dir) (g2, [top_id \<mapsto> num_vertices g0], 1) = Inr (g, idv, ttl)"
    by (rule make_graph_from_dir_Inr)
  from root s i have I2: "I g2" by simp
  from set_vertex_props_frame(1) [OF s]
  have "num_vertices g2 = Suc (num_vertices g0)"
    by (simp add: num_vertices_def add_vertex_simps)
  then have "\<forall>k p. [top_id \<mapsto> num_vertices g0] k = Some p \<longrightarrow> p < num_vertices g2"
    by (auto split: if_splits)
  from walk_dirs_invariant [of I C E sl, OF _ w I2 this] step i show ?thesis by simp
qed

lemma distinct_concat_unique_index:
  "distinct (concat xss) \<Longrightarrow> i < length xss \<Longrightarrow> j < length xss \<Longrightarrow>
   x \<in> set (xss ! i) \<Longrightarrow> x \<in> set (xss ! j) \<Longrightarrow> i = j"
proof (induction xss arbitrary: i j)
  case Nil
  then show ?case by simp
next
  case (Cons xs xss)
  from Cons.prems(1) have d: "distinct (concat xss)"
    and disj: "\<And>y ys. y \<in> set xs \<Longrightarrow> ys \<in> set xss \<Longrightarrow> y \<notin> set ys"
    by auto
  show ?case
  proof (cases i)
    case 0
    show ?thesis
    proof (cases j)
      case 0
      with \<open>i = 0\<close> show ?thesis by simp
    next
      case (Suc j')
      with Cons.prems(3,5) have "xss ! j' \<in> set xss" "x \<in> set (xss ! j')" by simp_all
      with disj [of x "xss ! j'"] Cons.prems(4) \<open>i = 0\<close> show ?thesis by simp
    qed
  next
    case (Suc i')
    show ?thesis
    proof (cases j)
      case 0
      from Suc Cons.prems(2,4) have "xss ! i' \<in> set xss" "x \<in> set (xss ! i')" by simp_all
      with disj [of x "xss ! i'"] Cons.prems(5) \<open>j = 0\<close> show ?thesis by simp
    next
      case (Suc j')
      with \<open>i = Suc i'\<close> Cons.prems Cons.IH [OF d, of i' j'] show ?thesis by simp
    qed
  qed
qed

section \<open>Properties of the candidate extraction\<close>

text \<open>
  C1. For every input graph \<open>g\<close>, \<^verbatim>\<open>extract_candidates\<close> returns, the caller's graph has
  no vertex left, and the vertices of the returned candidates, taken together with
  their multiplicity, are exactly the vertices of \<open>g\<close>: none is dropped and none is
  duplicated. When the vertices of \<open>g\<close> can be told apart by their property values,
  every vertex of \<open>g\<close> is in exactly one candidate.
\<close>

theorem extract_candidates_partition:
  "\<exists>cs g'. extract_candidates g = Some (Inr (cs, g'))
     \<and> num_vertices g' = 0
     \<and> mset (concat (map vp cs)) = mset (vp g)
     \<and> (distinct (vp g) \<longrightarrow> (\<forall>x \<in> set (vp g). \<exists>!k. k < length cs \<and> x \<in> set (vp (cs ! k))))"
proof -
  from extract_loop_returns [of g "[]"]
  obtain cs g' where r: "extract_candidates g = Some (Inr (cs, g'))"
    and e: "num_vertices g' = 0" and m: "mset (concat (map vp cs)) = mset (vp g)"
    by (auto simp: extract_candidates_def)
  have "\<exists>!k. k < length cs \<and> x \<in> set (vp (cs ! k))" if d: "distinct (vp g)" and x: "x \<in> set (vp g)" for x
  proof -
    from m d have dc: "distinct (concat (map vp cs))"
      by (metis mset_eq_imp_distinct_iff)
    from m x have "x \<in> set (concat (map vp cs))"
      by (metis mset_eq_setD)
    then obtain c where "c \<in> set cs" "x \<in> set (vp c)" by auto
    then obtain k where k: "k < length cs" "x \<in> set (vp (cs ! k))"
      by (auto simp: in_set_conv_nth)
    show ?thesis
    proof (rule ex1I [of _ k])
      from k show "k < length cs \<and> x \<in> set (vp (cs ! k))" by simp
    next
      fix j
      assume "j < length cs \<and> x \<in> set (vp (cs ! j))"
      with k distinct_concat_unique_index [OF dc, of j k x] show "j = k" by simp
    qed
  qed
  with r e m show ?thesis by blast
qed

theorem extract_candidates_partition_witness:
  "distinct (vp two_pairs)
   \<and> extract_candidates two_pairs =
       Some (Inr ([\<lparr>vp = [''a'', ''c''], edges = [(0, 1)], gp_has_encrypted_files = False\<rparr>,
                   \<lparr>vp = [''b'', ''d''], edges = [(1, 0)], gp_has_encrypted_files = False\<rparr>],
                  \<lparr>vp = [], edges = [], gp_has_encrypted_files = False\<rparr>))
   \<and> (\<exists>cs g'. extract_candidates two_pairs = Some (Inr (cs, g'))
        \<and> num_vertices g' = 0
        \<and> mset (concat (map vp cs)) = mset (vp two_pairs)
        \<and> (\<forall>x \<in> set (vp two_pairs). \<exists>!k. k < length cs \<and> x \<in> set (vp (cs ! k))))"
proof -
  have d: "distinct (vp two_pairs)" by (simp add: two_pairs_def)
  have v: "extract_candidates two_pairs =
       Some (Inr ([\<lparr>vp = [''a'', ''c''], edges = [(0, 1)], gp_has_encrypted_files = False\<rparr>,
                   \<lparr>vp = [''b'', ''d''], edges = [(1, 0)], gp_has_encrypted_files = False\<rparr>],
                  \<lparr>vp = [], edges = [], gp_has_encrypted_files = False\<rparr>))"
    by code_simp
  from extract_candidates_partition [of two_pairs] d v show ?thesis by blast
qed

text \<open>
  C3. In a graph with at least one vertex the seed, vertex 0 of the copy, has distance
  0 to itself and is in the collected list, so a pass of the loop leaves the caller's
  graph with fewer vertices than it had. And the loop ends: \<^verbatim>\<open>extract_candidates\<close>
  returns a list for every graph.
\<close>

theorem extract_candidates_terminates:
  "(0 < num_vertices g \<longrightarrow>
      shortest_distance (copy g) 0 ! 0 = 0
      \<and> (\<exists>sg. get_subtree_vertices (copy g) = Inr sg \<and> 0 \<in> set sg
            \<and> num_vertices (fst (extract_iteration g (copy g) sg)) < num_vertices g))
   \<and> (\<exists>cs g'. extract_candidates g = Some (Inr (cs, g')))"
proof -
  have "shortest_distance (copy g) 0 ! 0 = 0
      \<and> (\<exists>sg. get_subtree_vertices (copy g) = Inr sg \<and> 0 \<in> set sg
            \<and> num_vertices (fst (extract_iteration g (copy g) sg)) < num_vertices g)"
    if pos: "0 < num_vertices g"
  proof -
    from pos have pos': "0 < num_vertices (copy g)" by (simp add: copy_def)
    from seed_in_subtree [OF pos']
    obtain sg where sg: "get_subtree_vertices (copy g) = Inr sg" and seed: "0 \<in> set sg"
      by blast
    obtain g1 c where it: "extract_iteration g (copy g) sg = (g1, c)"
      by (cases "extract_iteration g (copy g) sg") auto
    from extract_iteration_decreases [OF it seed pos] it
    have "num_vertices (fst (extract_iteration g (copy g) sg)) < num_vertices g" by simp
    with sg seed shortest_distance_seed(2) [OF pos'] show ?thesis by blast
  qed
  moreover from extract_loop_returns [of g "[]"]
  have "\<exists>cs g'. extract_candidates g = Some (Inr (cs, g'))"
    by (auto simp: extract_candidates_def)
  ultimately show ?thesis by blast
qed

theorem extract_candidates_terminates_witness:
  "0 < num_vertices two_pairs
   \<and> shortest_distance (copy two_pairs) 0 ! 0 = 0
   \<and> get_subtree_vertices (copy two_pairs) = Inr [0, 2]
   \<and> (\<exists>sg. get_subtree_vertices (copy two_pairs) = Inr sg \<and> 0 \<in> set sg
         \<and> num_vertices (fst (extract_iteration two_pairs (copy two_pairs) sg))
             < num_vertices two_pairs)
   \<and> (\<exists>cs g'. extract_candidates two_pairs = Some (Inr (cs, g')))"
proof -
  have p: "0 < num_vertices two_pairs" by (simp add: two_pairs_def num_vertices_def)
  have v: "get_subtree_vertices (copy two_pairs) = Inr [0, 2]" by code_simp
  from extract_candidates_terminates [of two_pairs] p v show ?thesis by blast
qed

end
